theory Spec2Isabelle
  imports Main "HOL-Library.Sublist"
begin

section \<open>Python strings and the primitives the parser uses\<close>

text \<open>
  A Python \<open>str\<close> is modelled as a \<open>string\<close>: a list of 8-bit characters, read as the
  code points U+0000 to U+00FF. Within this range the classes below are exactly the ones
  the Python runtime uses: \<open>str.strip\<close>, \<open>str.isspace\<close> and the regular-expression class
  \<open>\s\<close> agree on twelve characters, \<open>\d\<close> is the ten ASCII digits, and under
  \<open>re.IGNORECASE\<close> the class \<open>[A-Z0-9\-]\<close> is the ASCII letters of both cases, the digits
  and the hyphen. Code points above U+00FF are outside the model.

  Python integers are unbounded and are modelled as \<open>int\<close>; \<open>int(s)\<close> and \<open>str(n)\<close> are
  the mathematical conversions (an interpreter-side cap on the number of digits that one
  conversion accepts is a configuration of the runtime, not of this program, and is not
  modelled).

  Every operation that can raise in Python returns a sum here: \<open>Inl\<close> is the exception.
\<close>

datatype py_error = ValueError | IndexError

definition is_space :: "char \<Rightarrow> bool" where
  \<comment> \<open>\<open>\s\<close>, and the characters removed by \<open>str.strip()\<close>\<close>
  "is_space c = (c \<in> set [CHR 0x09, CHR 0x0A, CHR 0x0B, CHR 0x0C, CHR 0x0D,
                            CHR 0x1C, CHR 0x1D, CHR 0x1E, CHR 0x1F, CHR 0x20,
                            CHR 0x85, CHR 0xA0])"

definition is_digit :: "char \<Rightarrow> bool" where
  \<comment> \<open>\<open>\d\<close>\<close>
  "is_digit c = (c \<in> set ''0123456789'')"

definition is_name_char :: "char \<Rightarrow> bool" where
  \<comment> \<open>\<open>[A-Z0-9\-]\<close> under \<open>re.IGNORECASE\<close>\<close>
  "is_name_char c =
     (c \<in> set ''ABCDEFGHIJKLMNOPQRSTUVWXYZabcdefghijklmnopqrstuvwxyz0123456789-'')"

definition is_pic_char :: "char \<Rightarrow> bool" where
  \<comment> \<open>\<open>[^\s.]\<close>\<close>
  "is_pic_char c = (\<not> is_space c \<and> c \<noteq> CHR ''.'')"

definition py_upper_char :: "char \<Rightarrow> string" where
  \<comment> \<open>\<open>str.upper()\<close> on one character. U+00DF becomes two characters. The upper-case
      forms of U+00B5 and U+00FF lie above U+00FF; the model keeps the character, which
      like its upper-case form belongs to none of the classes above.\<close>
  "py_upper_char c =
     (let n = (of_char c :: nat) in
      if 97 \<le> n \<and> n \<le> 122 then [char_of (n - 32)]
      else if n = 223 then ''SS''
      else if 224 \<le> n \<and> n \<le> 254 \<and> n \<noteq> 247 then [char_of (n - 32)]
      else [c])"

definition py_upper :: "string \<Rightarrow> string" where
  "py_upper s = concat (map py_upper_char s)"

definition py_lower_char :: "char \<Rightarrow> char" where
  \<comment> \<open>\<open>str.lower()\<close> on one character\<close>
  "py_lower_char c =
     (let n = (of_char c :: nat) in
      if 65 \<le> n \<and> n \<le> 90 then char_of (n + 32)
      else if 192 \<le> n \<and> n \<le> 222 \<and> n \<noteq> 215 then char_of (n + 32)
      else c)"

definition py_lower :: "string \<Rightarrow> string" where
  "py_lower s = map py_lower_char s"

definition py_strip :: "string \<Rightarrow> string" where
  \<comment> \<open>\<open>str.strip()\<close>\<close>
  "py_strip s = rev (dropWhile is_space (rev (dropWhile is_space s)))"

definition py_startswith :: "string \<Rightarrow> char \<Rightarrow> bool" where
  \<comment> \<open>\<open>s.startswith(c)\<close> for a one-character prefix\<close>
  "py_startswith s c = (case s of [] \<Rightarrow> False | x # _ \<Rightarrow> x = c)"

fun py_split :: "char \<Rightarrow> string \<Rightarrow> string list" where
  \<comment> \<open>\<open>s.split(c)\<close> for a one-character separator: never the empty list\<close>
  "py_split c [] = [[]]"
| "py_split c (x # xs) =
     (if x = c then [] # py_split c xs
      else (case py_split c xs of
              [] \<Rightarrow> [[x]]
            | l # ls \<Rightarrow> (x # l) # ls))"

definition py_replace :: "char \<Rightarrow> char \<Rightarrow> string \<Rightarrow> string" where
  \<comment> \<open>\<open>s.replace(a, b)\<close> for one-character \<open>a\<close> and \<open>b\<close>\<close>
  "py_replace a b s = map (\<lambda>x. if x = a then b else x) s"

fun py_join :: "string \<Rightarrow> string list \<Rightarrow> string" where
  \<comment> \<open>\<open>sep.join(xs)\<close>\<close>
  "py_join sep [] = []"
| "py_join sep [x] = x"
| "py_join sep (x # y # ys) = x @ sep @ py_join sep (y # ys)"

definition digit_val :: "char \<Rightarrow> nat" where
  "digit_val c = (of_char c :: nat) - 48"

definition dec_val :: "string \<Rightarrow> nat" where
  \<comment> \<open>the number a string of decimal digits denotes\<close>
  "dec_val s = foldl (\<lambda>a c. 10 * a + digit_val c) 0 s"

definition py_int :: "string \<Rightarrow> py_error + int" where
  \<comment> \<open>\<open>int(s)\<close>; the program applies it to captures of \<open>\d{2}\<close> and \<open>\d+\<close> only, and
      the model raises on everything that is not a non-empty run of digits\<close>
  "py_int s = (if s \<noteq> [] \<and> list_all is_digit s then Inr (int (dec_val s))
               else Inl ValueError)"

function str_nat :: "nat \<Rightarrow> string" where
  "str_nat n = (if n < 10 then [char_of (48 + n)]
                else str_nat (n div 10) @ [char_of (48 + n mod 10)])"
  by pat_completeness auto
termination
  by (relation "measure (\<lambda>n. n)") auto

declare str_nat.simps [simp del]

definition py_str :: "int \<Rightarrow> string" where
  \<comment> \<open>\<open>str(n)\<close>, as the f-strings format an integer\<close>
  "py_str n = (if n < 0 then CHR ''-'' # str_nat (nat (- n)) else str_nat (nat n))"

definition py_last :: "'a list \<Rightarrow> py_error + 'a" where
  \<comment> \<open>\<open>xs[-1]\<close>\<close>
  "py_last xs = (if xs = [] then Inl IndexError else Inr (last xs))"

definition py_pop :: "'a list \<Rightarrow> py_error + 'a list" where
  \<comment> \<open>\<open>xs.pop()\<close>: the list that remains\<close>
  "py_pop xs = (if xs = [] then Inl IndexError else Inr (butlast xs))"

section \<open>The regular expressions\<close>

text \<open>
  Each pattern of the source is a matcher that returns the captured groups. In all of
  them a greedy repetition is followed by something no character of the repeated class
  can start, so giving characters back never turns a failure into a match, and the
  matcher takes the longest run.
\<close>

definition match_spaces :: "string \<Rightarrow> string option" where
  \<comment> \<open>\<open>\s+\<close>: what follows the run\<close>
  "match_spaces s =
     (case s of [] \<Rightarrow> None
      | c # cs \<Rightarrow> if is_space c then Some (dropWhile is_space cs) else None)"

fun match_literal :: "string \<Rightarrow> string \<Rightarrow> string option" where
  \<comment> \<open>a literal under \<open>re.IGNORECASE\<close>: what follows it\<close>
  "match_literal [] s = Some s"
| "match_literal (k # ks) [] = None"
| "match_literal (k # ks) (c # cs) =
     (if py_lower_char c = py_lower_char k then match_literal ks cs else None)"

definition match_pic_token :: "string \<Rightarrow> string option" where
  \<comment> \<open>\<open>\s+([^\s.]+)\<close>: group 3\<close>
  "match_pic_token s =
     (case match_spaces s of None \<Rightarrow> None
      | Some r \<Rightarrow> (let tok = takeWhile is_pic_char r in
                   if tok = [] then None else Some tok))"

definition match_pic_clause :: "string \<Rightarrow> string option" where
  \<comment> \<open>\<open>(?:\s+(?:PIC|PICTURE)\s+([^\s.]+))?\<close>: group 3, \<open>None\<close> when the optional part
      does not match; the alternative \<open>PIC\<close> is tried first, then \<open>PICTURE\<close>\<close>
  "match_pic_clause s =
     (case match_spaces s of None \<Rightarrow> None
      | Some r \<Rightarrow>
          (case (case match_literal ''PIC'' r of None \<Rightarrow> None
                 | Some r' \<Rightarrow> match_pic_token r') of
             Some tok \<Rightarrow> Some tok
           | None \<Rightarrow> (case match_literal ''PICTURE'' r of None \<Rightarrow> None
                      | Some r' \<Rightarrow> match_pic_token r')))"

definition match_line :: "string \<Rightarrow> (string \<times> string \<times> string option) option" where
  \<comment> \<open>\<open>re.match(r'^\s*(\d{2})\s+([A-Z0-9\-]+)(?:\s+(?:PIC|PICTURE)\s+([^\s.]+))?', line,
      re.IGNORECASE)\<close>: groups 1, 2 and 3\<close>
  "match_line line =
     (case dropWhile is_space line of
        d1 # d2 # r1 \<Rightarrow>
          if is_digit d1 \<and> is_digit d2 then
            (case match_spaces r1 of None \<Rightarrow> None
             | Some r2 \<Rightarrow>
                 (let nm = takeWhile is_name_char r2 in
                  if nm = [] then None
                  else Some ([d1, d2], nm, match_pic_clause (dropWhile is_name_char r2))))
          else None
      | _ \<Rightarrow> None)"

definition match_count :: "string \<Rightarrow> (string \<times> string) option" where
  \<comment> \<open>\<open>\((\d+)\)\<close>: the digits and what follows the closing parenthesis\<close>
  "match_count s =
     (case s of [] \<Rightarrow> None
      | c # r \<Rightarrow>
          if c = CHR ''('' then
            (let ds = takeWhile is_digit r in
             if ds = [] then None
             else (case dropWhile is_digit r of [] \<Rightarrow> None
                   | d # r' \<Rightarrow> if d = CHR '')'' then Some (ds, r') else None))
          else None)"

definition match_integer :: "string \<Rightarrow> string option" where
  \<comment> \<open>\<open>9\((\d+)\)\<close> at the start of the string: group 1\<close>
  "match_integer s =
     (case s of [] \<Rightarrow> None
      | c # r \<Rightarrow> if c = CHR ''9'' then map_option fst (match_count r) else None)"

definition match_decimal :: "string \<Rightarrow> (string \<times> string) option" where
  \<comment> \<open>\<open>9\((\d+)\)V9\((\d+)\)\<close> at the start of the string: groups 1 and 2\<close>
  "match_decimal s =
     (case s of [] \<Rightarrow> None
      | c # r \<Rightarrow>
          if c = CHR ''9'' then
            (case match_count r of None \<Rightarrow> None
             | Some (g1, r1) \<Rightarrow>
                 (case r1 of
                    v # n # r2 \<Rightarrow>
                      if v = CHR ''V'' \<and> n = CHR ''9'' then
                        (case match_count r2 of None \<Rightarrow> None
                         | Some (g2, _) \<Rightarrow> Some (g1, g2))
                      else None
                  | _ \<Rightarrow> None))
          else None)"

definition match_character :: "string \<Rightarrow> string option" where
  \<comment> \<open>\<open>[XA]\((\d+)\)\<close> at the start of the string: group 1\<close>
  "match_character s =
     (case s of [] \<Rightarrow> None
      | c # r \<Rightarrow> if c = CHR ''X'' \<or> c = CHR ''A'' then map_option fst (match_count r)
                 else None)"

fun re_search :: "(string \<Rightarrow> 'a option) \<Rightarrow> string \<Rightarrow> 'a option" where
  \<comment> \<open>\<open>re.search\<close>: the match at the leftmost position that has one\<close>
  "re_search m [] = m []"
| "re_search m (c # cs) = (case m (c # cs) of Some g \<Rightarrow> Some g | None \<Rightarrow> re_search m cs)"

section \<open>The parser\<close>

record Field =
  level :: int
  name :: string
  pic :: "string option"
  sql_type :: string
  field_length :: "int option"
  parent :: "string option"

record CopybookParser =
  fields_attr :: "Field list"
  parent_stack :: "(int \<times> string) list"

definition parse_pic :: "string \<Rightarrow> py_error + (string \<times> int)" where
  \<comment> \<open>\<open>CopybookParser._parse_pic\<close>\<close>
  "parse_pic pic0 =
     (let pic = py_strip (py_upper pic0) in
      case (if CHR ''V'' \<in> set pic then re_search match_decimal pic else None) of
        Some (g1, g2) \<Rightarrow>
          (case py_int g1 of Inl e \<Rightarrow> Inl e
           | Inr p \<Rightarrow>
               (case py_int g2 of Inl e \<Rightarrow> Inl e
                | Inr s \<Rightarrow>
                    Inr (''DECIMAL('' @ py_str (p + s) @ '','' @ py_str s @ '')'', p + s)))
      | None \<Rightarrow>
          (case re_search match_integer pic of
             Some g1 \<Rightarrow>
               (case py_int g1 of Inl e \<Rightarrow> Inl e
                | Inr len \<Rightarrow> Inr (if len > 9 then ''BIGINT'' else ''INTEGER'', len))
           | None \<Rightarrow>
               (case re_search match_character pic of
                  Some g1 \<Rightarrow>
                    (case py_int g1 of Inl e \<Rightarrow> Inl e
                     | Inr len \<Rightarrow> Inr (''VARCHAR('' @ py_str len @ '')'', len))
                | None \<Rightarrow> Inr (''VARCHAR(255)'', 255))))"

function pop_parent_stack ::
  "int \<Rightarrow> (int \<times> string) list \<Rightarrow> py_error + (int \<times> string) list" where
  \<comment> \<open>\<open>while self.parent_stack and self.parent_stack[-1][0] >= level:
        self.parent_stack.pop()\<close>\<close>
  "pop_parent_stack lv st =
     (if st = [] then Inr st
      else (case py_last st of Inl e \<Rightarrow> Inl e
            | Inr ent \<Rightarrow>
                if fst ent \<ge> lv then
                  (case py_pop st of Inl e \<Rightarrow> Inl e
                   | Inr st' \<Rightarrow> pop_parent_stack lv st')
                else Inr st))"
  by pat_completeness auto
termination
  by (relation "measure (\<lambda>(lv, st). length st)") (auto simp: py_pop_def split: if_splits)

declare pop_parent_stack.simps [simp del]

definition parse_line :: "CopybookParser \<Rightarrow> string \<Rightarrow> py_error + CopybookParser" where
  \<comment> \<open>the body of the loop over the lines in \<open>CopybookParser.parse\<close>; \<open>continue\<close> returns
      the parser unchanged\<close>
  "parse_line self line =
     (if py_startswith (py_strip line) (CHR ''*'') \<or> py_strip line = [] then Inr self
      else
        (case match_line line of
           None \<Rightarrow> Inr self
         | Some (g1, nm, pc) \<Rightarrow>
             (case py_int g1 of Inl e \<Rightarrow> Inl e
              | Inr lv \<Rightarrow>
                  (case pop_parent_stack lv (parent_stack self) of Inl e \<Rightarrow> Inl e
                   | Inr st \<Rightarrow>
                       (case (if st \<noteq> [] then map_sum id (\<lambda>ent. Some (snd ent)) (py_last st)
                              else Inr None) of
                          Inl e \<Rightarrow> Inl e
                        | Inr par \<Rightarrow>
                            if pc = None \<or> pc = Some [] then
                              Inr (self\<lparr>parent_stack := st @ [(lv, nm)]\<rparr>)
                            else
                              (case parse_pic (the pc) of Inl e \<Rightarrow> Inl e
                               | Inr (ty, len) \<Rightarrow>
                                   Inr (self\<lparr>parent_stack := st,
                                          fields_attr := fields_attr self @
                                            [\<lparr>level = lv, name = nm, pic = pc,
                                              sql_type = ty, field_length = Some len,
                                              parent = par\<rparr>]\<rparr>)))))))"

fun parse_lines :: "CopybookParser \<Rightarrow> string list \<Rightarrow> py_error + CopybookParser" where
  \<comment> \<open>the loop over the lines; an exception ends it\<close>
  "parse_lines self [] = Inr self"
| "parse_lines self (l # ls) =
     (case parse_line self l of Inl e \<Rightarrow> Inl e
      | Inr self' \<Rightarrow> parse_lines self' ls)"

definition parse :: "CopybookParser \<Rightarrow> string \<Rightarrow> py_error + (Field list \<times> CopybookParser)" where
  \<comment> \<open>\<open>CopybookParser.parse\<close>: the returned list and the parser after the call\<close>
  "parse self content =
     (case parse_lines (self\<lparr>fields_attr := [], parent_stack := []\<rparr>)
             (py_split (CHR 0x0A) content) of
        Inl e \<Rightarrow> Inl e
      | Inr self' \<Rightarrow> Inr (fields_attr self', self'))"

definition generate_ddl :: "CopybookParser \<Rightarrow> string \<Rightarrow> string" where
  \<comment> \<open>\<open>CopybookParser.generate_ddl\<close>\<close>
  "generate_ddl self table_name =
     (let ddl = ''CREATE TABLE bronze.'' @ table_name @ '' ('' @ [CHR 0x0A];
          cols = foldl (\<lambda>cols f.
                   cols @ [''    '' @ py_replace (CHR ''-'') (CHR ''_'') (py_lower (name f))
                           @ '' '' @ sql_type f])
                 [] (fields_attr self)
      in ddl @ py_join ('','' @ [CHR 0x0A]) cols @ [CHR 0x0A] @ '');'')"

section \<open>Inputs and expected values of the examples\<close>

definition new_parser :: CopybookParser where
  \<comment> \<open>\<open>CopybookParser()\<close>\<close>
  "new_parser = \<lparr>fields_attr = [], parent_stack = []\<rparr>"

definition example_copybook :: string where
  \<comment> \<open>the six-line copybook of the end-to-end scenario\<close>
  "example_copybook =
     ''01  CUSTOMER-RECORD.'' @ [CHR 0x0A] @
     ''    05  CUSTOMER-ID       PIC 9(10).'' @ [CHR 0x0A] @
     ''    05  CUSTOMER-NAME.'' @ [CHR 0x0A] @
     ''        10  FIRST-NAME    PIC X(30).'' @ [CHR 0x0A] @
     ''        10  LAST-NAME     PIC X(30).'' @ [CHR 0x0A] @
     ''    05  ACCOUNT-BALANCE   PIC S9(13)V99.''"

definition example_fields :: "Field list" where
  \<comment> \<open>what \<open>parse\<close> computes for it\<close>
  "example_fields =
     [\<lparr>level = 5, name = ''CUSTOMER-ID'', pic = Some ''9(10)'',
       sql_type = ''BIGINT'', field_length = Some 10,
       parent = Some ''CUSTOMER-RECORD''\<rparr>,
      \<lparr>level = 10, name = ''FIRST-NAME'', pic = Some ''X(30)'',
       sql_type = ''VARCHAR(30)'', field_length = Some 30,
       parent = Some ''CUSTOMER-NAME''\<rparr>,
      \<lparr>level = 10, name = ''LAST-NAME'', pic = Some ''X(30)'',
       sql_type = ''VARCHAR(30)'', field_length = Some 30,
       parent = Some ''CUSTOMER-NAME''\<rparr>,
      \<lparr>level = 5, name = ''ACCOUNT-BALANCE'', pic = Some ''S9(13)V99'',
       sql_type = ''BIGINT'', field_length = Some 13,
       parent = Some ''CUSTOMER-RECORD''\<rparr>]"

definition example_parser :: CopybookParser where
  \<comment> \<open>the parser after that call\<close>
  "example_parser =
     \<lparr>fields_attr = example_fields, parent_stack = [(1, ''CUSTOMER-RECORD'')]\<rparr>"

section \<open>The components the specification names\<close>

text \<open>
  The specification describes the loop body as a Line Classifier followed by a Hierarchy
  Resolver. \<open>classify\<close> collects the tests the loop body makes on a line, \<open>resolve\<close> what
  it does with the outcome; \<open>parse_line_classify\<close> below proves that the loop body is
  their composition.
\<close>

datatype decl = Skip | GroupDeclaration int string | FieldDeclaration int string string

definition classify :: "string \<Rightarrow> decl" where
  \<comment> \<open>the Line Classifier: the comment and blank test, the pattern, and the test
      \<open>if not pic\<close>, with the level converted\<close>
  "classify line =
     (if py_startswith (py_strip line) (CHR ''*'') \<or> py_strip line = [] then Skip
      else (case match_line line of
              None \<Rightarrow> Skip
            | Some (g1, nm, pc) \<Rightarrow>
                (case pc of
                   None \<Rightarrow> GroupDeclaration (int (dec_val g1)) nm
                 | Some p \<Rightarrow> if p = [] then GroupDeclaration (int (dec_val g1)) nm
                             else FieldDeclaration (int (dec_val g1)) nm p)))"

definition open_below :: "int \<Rightarrow> (int \<times> string) list \<Rightarrow> (int \<times> string) list" where
  \<comment> \<open>the stack once the entries of level \<open>lv\<close> or above have been popped off its top\<close>
  "open_below lv st = rev (dropWhile (\<lambda>e. lv \<le> fst e) (rev st))"

definition top_name :: "(int \<times> string) list \<Rightarrow> string option" where
  \<comment> \<open>\<open>self.parent_stack[-1][1] if self.parent_stack else None\<close>\<close>
  "top_name st = (if st = [] then None else Some (snd (last st)))"

definition pic_result :: "string \<Rightarrow> string \<times> int" where
  \<comment> \<open>what \<open>_parse_pic\<close> returns (\<open>parse_pic_total\<close> below: it always returns)\<close>
  "pic_result p = (case parse_pic p of Inr r \<Rightarrow> r | Inl e \<Rightarrow> ([], 0))"

fun resolve :: "CopybookParser \<Rightarrow> decl \<Rightarrow> CopybookParser" where
  \<comment> \<open>the Hierarchy Resolver: the parser after one classified line\<close>
  "resolve self Skip = self"
| "resolve self (GroupDeclaration lv nm) =
     self\<lparr>parent_stack := open_below lv (parent_stack self) @ [(lv, nm)]\<rparr>"
| "resolve self (FieldDeclaration lv nm p) =
     self\<lparr>parent_stack := open_below lv (parent_stack self),
          fields_attr := fields_attr self @
            [\<lparr>level = lv, name = nm, pic = Some p,
              sql_type = fst (pic_result p), field_length = Some (snd (pic_result p)),
              parent = top_name (open_below lv (parent_stack self))\<rparr>]\<rparr>"

fun is_field_declaration :: "decl \<Rightarrow> bool" where
  "is_field_declaration (FieldDeclaration lv nm p) = True"
| "is_field_declaration d = False"

definition declaration_of :: "Field \<Rightarrow> decl" where
  \<comment> \<open>the declaration a Field records: its level, name and PIC text\<close>
  "declaration_of f =
     (case pic f of None \<Rightarrow> GroupDeclaration (level f) (name f)
      | Some p \<Rightarrow> FieldDeclaration (level f) (name f) p)"

section \<open>The PIC patterns, as the specification reads them\<close>




section \<open>Parents, without a stack\<close>

fun nearest_open :: "decl list \<Rightarrow> int \<Rightarrow> string option" where
  \<comment> \<open>the parent of a Field of level \<open>lv\<close>, read off the declarations scanned before it
      (the most recent first): going back from the Field, the first group whose level is
      below \<open>lv\<close> and below the level of every field declaration passed on the way\<close>
  "nearest_open [] lv = None"
| "nearest_open (Skip # seen) lv = nearest_open seen lv"
| "nearest_open (GroupDeclaration lg nm # seen) lv =
     (if lg < lv then Some nm else nearest_open seen lv)"
| "nearest_open (FieldDeclaration lf nm p # seen) lv = nearest_open seen (min lv lf)"

fun field_parents :: "decl list \<Rightarrow> decl list \<Rightarrow> string option list" where
  \<comment> \<open>\<open>nearest_open\<close> for each FieldDeclaration of a scan, in order; the first argument
      holds the declarations already scanned, the most recent first\<close>
  "field_parents seen [] = []"
| "field_parents seen (FieldDeclaration lv nm p # ds) =
     nearest_open seen lv # field_parents (FieldDeclaration lv nm p # seen) ds"
| "field_parents seen (d # ds) = field_parents (d # seen) ds"

fun nearest_lower_group :: "decl list \<Rightarrow> int \<Rightarrow> string option" where
  \<comment> \<open>the parent as the specification words it: the nearest preceding group declaration
      of level below \<open>lv\<close>, whatever lies between (the declarations scanned before, the
      most recent first)\<close>
  "nearest_lower_group [] lv = None"
| "nearest_lower_group (GroupDeclaration lg nm # seen) lv =
     (if lg < lv then Some nm else nearest_lower_group seen lv)"
| "nearest_lower_group (d # seen) lv = nearest_lower_group seen lv"

definition skipped_field_copybook :: string where
  \<comment> \<open>a field of level 03 between a group of level 05 and a field of level 10\<close>
  "skipped_field_copybook =
     ''01 G0.'' @ [CHR 0x0A] @
     ''05 G1.'' @ [CHR 0x0A] @
     ''03 F1 PIC X(1).'' @ [CHR 0x0A] @
     ''10 F2 PIC X(1).''"

section \<open>The matchers and the loop body\<close>

lemma match_count_SomeD:
  assumes "match_count s = Some (ds, r)"
  shows "ds \<noteq> [] \<and> list_all is_digit ds \<and> s = CHR ''('' # ds @ CHR '')'' # r"
proof (cases s)
  case Nil
  with assms show ?thesis by (simp add: match_count_def)
next
  case (Cons c t)
  from assms Cons have c: "c = CHR ''(''"
    by (simp add: match_count_def split: if_splits)
  from assms Cons c have ne: "takeWhile is_digit t \<noteq> []"
    by (auto simp: match_count_def Let_def split: if_splits)
  from assms Cons c ne obtain d r' where dw: "dropWhile is_digit t = d # r'"
    by (auto simp: match_count_def Let_def split: list.splits)
  from assms Cons c ne dw have d: "d = CHR '')''" and r: "r' = r" and ds: "ds = takeWhile is_digit t"
    by (auto simp: match_count_def Let_def split: if_splits)
  have "t = takeWhile is_digit t @ dropWhile is_digit t" by simp
  with dw d r ds have "t = ds @ CHR '')'' # r" by simp
  moreover have "list_all is_digit ds" unfolding ds list_all_iff
    by (auto dest: set_takeWhileD)
  ultimately show ?thesis using Cons c ne ds by simp
qed

lemma not_digit_paren [simp]: "\<not> is_digit (CHR '')'')"
  by (simp add: is_digit_def)


lemma py_int_digits: "ds \<noteq> [] \<Longrightarrow> list_all is_digit ds \<Longrightarrow> py_int ds = Inr (int (dec_val ds))"
  by (simp add: py_int_def)

lemma re_search_Some_iff:
  "re_search m s = Some g \<longleftrightarrow>
     (\<exists>i\<le>length s. m (drop i s) = Some g \<and> (\<forall>j<i. m (drop j s) = None))"
proof (induction s)
  case Nil
  then show ?case by simp
next
  case (Cons c cs)
  show ?case
  proof (cases "m (c # cs)")
    case (Some g')
    have "(\<exists>i\<le>length (c # cs). m (drop i (c # cs)) = Some g \<and> (\<forall>j<i. m (drop j (c # cs)) = None))
          \<longleftrightarrow> g' = g"
    proof
      assume "\<exists>i\<le>length (c # cs). m (drop i (c # cs)) = Some g \<and> (\<forall>j<i. m (drop j (c # cs)) = None)"
      then obtain i where i: "m (drop i (c # cs)) = Some g" "\<forall>j<i. m (drop j (c # cs)) = None"
        by blast
      have "i = 0"
      proof (rule ccontr)
        assume "i \<noteq> 0"
        then have "0 < i" by simp
        with i(2) have "m (drop 0 (c # cs)) = None" by blast
        with Some show False by simp
      qed
      with i(1) Some show "g' = g" by simp
    next
      assume "g' = g"
      with Some have "m (drop 0 (c # cs)) = Some g \<and> (\<forall>j<0. m (drop j (c # cs)) = None)" by simp
      then show "\<exists>i\<le>length (c # cs). m (drop i (c # cs)) = Some g \<and> (\<forall>j<i. m (drop j (c # cs)) = None)"
        by blast
    qed
    with Some show ?thesis by simp
  next
    case None
    have "(\<exists>i\<le>length (c # cs). m (drop i (c # cs)) = Some g \<and> (\<forall>j<i. m (drop j (c # cs)) = None))
          \<longleftrightarrow> (\<exists>i\<le>length cs. m (drop i cs) = Some g \<and> (\<forall>j<i. m (drop j cs) = None))"
      (is "?L \<longleftrightarrow> ?R")
    proof
      assume ?L
      then obtain i where i: "i \<le> length (c # cs)" "m (drop i (c # cs)) = Some g"
        "\<forall>j<i. m (drop j (c # cs)) = None" by blast
      from i(2) None have "i \<noteq> 0" by (cases i) auto
      then obtain k where k: "i = Suc k" by (cases i) auto
      have "\<forall>j<k. m (drop j cs) = None"
      proof (intro allI impI)
        fix j assume "j < k"
        then have "Suc j < i" using k by simp
        with i(3) have "m (drop (Suc j) (c # cs)) = None" by blast
        then show "m (drop j cs) = None" by simp
      qed
      with i k show ?R by auto
    next
      assume ?R
      then obtain i where i: "i \<le> length cs" "m (drop i cs) = Some g"
        "\<forall>j<i. m (drop j cs) = None" by blast
      have "\<forall>j<Suc i. m (drop j (c # cs)) = None"
      proof (intro allI impI)
        fix j assume j: "j < Suc i"
        show "m (drop j (c # cs)) = None"
        proof (cases j)
          case 0
          with None show ?thesis by simp
        next
          case (Suc j')
          with j i(3) show ?thesis by simp
        qed
      qed
      with i have "Suc i \<le> length (c # cs) \<and> m (drop (Suc i) (c # cs)) = Some g
        \<and> (\<forall>j<Suc i. m (drop j (c # cs)) = None)" by simp
      then show ?L by blast
    qed
    with None Cons.IH show ?thesis by simp
  qed
qed



lemma match_integer_SomeD:
  assumes "match_integer s = Some ds"
  shows "ds \<noteq> [] \<and> list_all is_digit ds \<and> (\<exists>r. s = ''9('' @ ds @ '')'' @ r)"
proof (cases s)
  case Nil
  with assms show ?thesis by (simp add: match_integer_def)
next
  case (Cons c t)
  with assms have c: "c = CHR ''9''" by (simp add: match_integer_def split: if_splits)
  with assms Cons obtain r where "match_count t = Some (ds, r)"
    by (auto simp: match_integer_def)
  from match_count_SomeD [OF this] Cons c show ?thesis by simp
qed

lemma match_character_SomeD:
  assumes "match_character s = Some ds"
  shows "ds \<noteq> [] \<and> list_all is_digit ds
         \<and> (\<exists>c r. (c = CHR ''X'' \<or> c = CHR ''A'') \<and> s = c # CHR ''('' # ds @ '')'' @ r)"
proof (cases s)
  case Nil
  with assms show ?thesis by (simp add: match_character_def)
next
  case (Cons c t)
  with assms have c: "c = CHR ''X'' \<or> c = CHR ''A''"
    by (simp add: match_character_def split: if_splits)
  with assms Cons obtain r where "match_count t = Some (ds, r)"
    by (auto simp: match_character_def)
  from match_count_SomeD [OF this] Cons c show ?thesis by simp
qed

lemma match_decimal_SomeD:
  assumes "match_decimal s = Some (g1, g2)"
  shows "g1 \<noteq> [] \<and> list_all is_digit g1 \<and> g2 \<noteq> [] \<and> list_all is_digit g2
         \<and> (\<exists>r. s = ''9('' @ g1 @ '')V9('' @ g2 @ '')'' @ r)"
proof (cases s)
  case Nil
  with assms show ?thesis by (simp add: match_decimal_def)
next
  case (Cons c t)
  with assms have c: "c = CHR ''9''" by (simp add: match_decimal_def split: if_splits)
  from assms Cons c obtain h1 r1 where m1: "match_count t = Some (h1, r1)"
    by (auto simp: match_decimal_def split: option.splits)
  from assms Cons c m1 obtain v n r2 where r1: "r1 = v # n # r2"
    by (auto simp: match_decimal_def split: list.splits)
  from assms Cons c m1 r1 have vn: "v = CHR ''V''" "n = CHR ''9''"
    by (auto simp: match_decimal_def split: if_splits)
  from assms Cons c m1 r1 vn obtain r3 where m2: "match_count r2 = Some (g2, r3)" and g1: "h1 = g1"
    by (auto simp: match_decimal_def split: option.splits)
  from match_count_SomeD [OF m1] match_count_SomeD [OF m2] Cons c r1 vn g1
  show ?thesis by simp
qed

lemma pop_parent_stack_eq: "pop_parent_stack lv st = Inr (open_below lv st)"
proof (induction st rule: rev_induct)
  case Nil
  show ?case by (simp add: pop_parent_stack.simps [of lv "[]"] open_below_def)
next
  case (snoc x xs)
  show ?case
  proof (cases "lv \<le> fst x")
    case True
    then show ?thesis
      using snoc.IH
      by (simp add: pop_parent_stack.simps [of lv "xs @ [x]"] py_last_def py_pop_def
          open_below_def)
  next
    case False
    then show ?thesis
      by (simp add: pop_parent_stack.simps [of lv "xs @ [x]"] py_last_def open_below_def)
  qed
qed

lemma parse_pic_total: "\<exists>ty len. parse_pic p = Inr (ty, len)"
proof -
  define u where "u = py_strip (py_upper p)"
  show ?thesis
  proof (cases "if CHR ''V'' \<in> set u then re_search match_decimal u else None")
    case (Some g)
    obtain g1 g2 where g: "g = (g1, g2)" by (cases g)
    from Some g have "re_search match_decimal u = Some (g1, g2)" by (simp split: if_splits)
    then obtain i where "match_decimal (drop i u) = Some (g1, g2)"
      unfolding re_search_Some_iff by blast
    from match_decimal_SomeD [OF this] have "py_int g1 = Inr (int (dec_val g1))"
      "py_int g2 = Inr (int (dec_val g2))" by (simp_all add: py_int_digits)
    with Some g show ?thesis by (simp add: parse_pic_def u_def [symmetric])
  next
    case None
    note dec = this
    show ?thesis
    proof (cases "re_search match_integer u")
      case (Some g1)
      then obtain i where "match_integer (drop i u) = Some g1"
        unfolding re_search_Some_iff by blast
      from match_integer_SomeD [OF this] have "py_int g1 = Inr (int (dec_val g1))"
        by (simp add: py_int_digits)
      with dec Some show ?thesis by (simp add: parse_pic_def u_def [symmetric])
    next
      case None
      note intg = this
      show ?thesis
      proof (cases "re_search match_character u")
        case (Some g1)
        then obtain i where "match_character (drop i u) = Some g1"
          unfolding re_search_Some_iff by blast
        from match_character_SomeD [OF this] have "py_int g1 = Inr (int (dec_val g1))"
          by (simp add: py_int_digits)
        with dec intg Some show ?thesis by (simp add: parse_pic_def u_def [symmetric])
      next
        case None
        with dec intg show ?thesis by (simp add: parse_pic_def u_def [symmetric])
      qed
    qed
  qed
qed

lemma parse_pic_result: "parse_pic p = Inr (pic_result p)"
  using parse_pic_total [of p] by (auto simp: pic_result_def)

lemma match_line_SomeD:
  assumes "match_line line = Some (g1, nm, pc)"
  shows "g1 \<noteq> [] \<and> list_all is_digit g1 \<and> length g1 = 2 \<and> nm \<noteq> [] \<and> list_all is_name_char nm"
proof -
  from assms obtain d1 d2 r1 where dw: "dropWhile is_space line = d1 # d2 # r1"
    by (auto simp: match_line_def split: list.splits)
  from assms dw have dg: "is_digit d1" "is_digit d2"
    by (auto simp: match_line_def split: if_splits)
  from assms dw dg obtain r2 where ms: "match_spaces r1 = Some r2"
    by (auto simp: match_line_def split: option.splits)
  from assms dw dg ms have "g1 = [d1, d2]" "nm = takeWhile is_name_char r2" "nm \<noteq> []"
    by (auto simp: match_line_def Let_def split: if_splits)
  moreover have "list_all is_name_char (takeWhile is_name_char r2)"
    unfolding list_all_iff by (auto dest: set_takeWhileD)
  ultimately show ?thesis using dg by simp
qed

lemma parse_line_classify: "parse_line self line = Inr (resolve self (classify line))"
proof (cases "py_startswith (py_strip line) (CHR ''*'') \<or> py_strip line = []")
  case True
  then show ?thesis by (simp add: parse_line_def classify_def)
next
  case False
  note live = this
  show ?thesis
  proof (cases "match_line line")
    case None
    with live show ?thesis by (simp add: parse_line_def classify_def)
  next
    case (Some m)
    obtain g1 nm pc where m: "m = (g1, nm, pc)" by (cases m)
    from match_line_SomeD [of line g1 nm pc] Some m
    have lv: "py_int g1 = Inr (int (dec_val g1))" by (simp add: py_int_digits)
    show ?thesis
    proof (cases "pc = None \<or> pc = Some []")
      case True
      with live Some m lv show ?thesis
        by (auto simp: parse_line_def classify_def pop_parent_stack_eq py_last_def)
    next
      case False
      then obtain p where p: "pc = Some p" "p \<noteq> []" by (cases pc) auto
      with live Some m lv show ?thesis
        by (simp add: parse_line_def classify_def pop_parent_stack_eq py_last_def
            parse_pic_result top_name_def case_prod_beta)
    qed
  qed
qed

lemma parse_lines_eq: "parse_lines self ls = Inr (foldl resolve self (map classify ls))"
  by (induction ls arbitrary: self) (simp_all add: parse_line_classify)

section \<open>What parse and generate_ddl return\<close>

lemma parse_resets: "self\<lparr>fields_attr := [], parent_stack := []\<rparr> = new_parser"
  by (cases self) (simp add: new_parser_def)

lemma parse_new_parser: "parse self content = parse new_parser content"
  by (simp add: parse_def parse_resets)

lemma parse_eq:
  "parse self content =
     Inr (fields_attr (foldl resolve new_parser (map classify (py_split (CHR 0x0A) content))),
          foldl resolve new_parser (map classify (py_split (CHR 0x0A) content)))"
  by (simp add: parse_def parse_resets parse_lines_eq)

lemma resolve_fields:
  "map declaration_of (fields_attr (resolve s d)) =
     map declaration_of (fields_attr s) @ filter is_field_declaration [d]"
  by (cases d) (simp_all add: declaration_of_def)

lemma foldl_resolve_fields:
  "map declaration_of (fields_attr (foldl resolve s ds)) =
     map declaration_of (fields_attr s) @ filter is_field_declaration ds"
proof (induction ds arbitrary: s)
  case Nil
  then show ?case by simp
next
  case (Cons d ds)
  have "map declaration_of (fields_attr (foldl resolve (resolve s d) ds)) =
        map declaration_of (fields_attr (resolve s d)) @ filter is_field_declaration ds"
    by (rule Cons.IH)
  also have "\<dots> = map declaration_of (fields_attr s) @ filter is_field_declaration [d]
                    @ filter is_field_declaration ds"
    by (simp only: resolve_fields append_assoc)
  finally show ?case by simp
qed

text \<open>
  Claim C9. \<open>parse\<close> returns one Field for each input line classified as a
  FieldDeclaration, in line order and with that line's level, name and PIC text; lines
  classified as GroupDeclaration or Skip contribute none. In particular the number of
  Fields is the number of FieldDeclaration lines.
\<close>

theorem fields_are_the_field_declarations:
  "\<exists>fs self'. parse self content = Inr (fs, self')
     \<and> map declaration_of fs =
         filter is_field_declaration (map classify (py_split (CHR 0x0A) content))
     \<and> length fs =
         length (filter is_field_declaration (map classify (py_split (CHR 0x0A) content)))"
proof -
  let ?ds = "map classify (py_split (CHR 0x0A) content)"
  have m: "map declaration_of (fields_attr (foldl resolve new_parser ?ds)) =
           filter is_field_declaration ?ds"
    using foldl_resolve_fields [of new_parser ?ds] by (simp add: new_parser_def)
  from arg_cong [OF m, of length]
  have "length (fields_attr (foldl resolve new_parser ?ds)) =
        length (filter is_field_declaration ?ds)" by simp
  with m show ?thesis by (simp add: parse_eq)
qed







text \<open>
  Claim C10. \<open>parse\<close> assigns fresh empty lists to \<open>self.fields\<close> and \<open>self.parent_stack\<close>
  before it reads the input, so its result (the returned list and the parser that
  \<open>generate_ddl\<close> reads afterwards) is the same from any two parser states, in particular
  from the state an earlier call left behind and from a new parser. A second call with
  the same input on the parser the first call left returns the same Field list, and the
  DDL generated after a call is the same whatever the parser held before.
\<close>

theorem parse_independent_of_earlier_calls:
  "parse self1 content = parse self2 content
   \<and> parse self1 content = parse new_parser content
   \<and> (\<exists>fs self'. parse self1 content = Inr (fs, self')
          \<and> parse self' content = Inr (fs, self'))
   \<and> map_sum id (\<lambda>r. generate_ddl (snd r) table_name) (parse self1 content) =
       map_sum id (\<lambda>r. generate_ddl (snd r) table_name) (parse self2 content)"
proof -
  have eq: "parse self1 content = parse self2 content"
    using parse_new_parser [of self1 content] parse_new_parser [of self2 content] by simp
  have new: "parse self1 content = parse new_parser content"
    by (rule parse_new_parser)
  have again: "\<exists>fs self'. parse self1 content = Inr (fs, self')
          \<and> parse self' content = Inr (fs, self')"
  proof -
    obtain fs self' where a: "parse new_parser content = Inr (fs, self')"
      using parse_eq [of new_parser content] by blast
    have "parse self' content = Inr (fs, self')"
      using a parse_new_parser [of self' content] by simp
    with a new show ?thesis by auto
  qed
  from eq new again show ?thesis by simp
qed

section \<open>The end-to-end scenario\<close>

lemma parse_example_new: "parse new_parser example_copybook = Inr (example_fields, example_parser)"
  by code_simp

lemma ddl_example:
  "generate_ddl example_parser ''customer'' =
     ''CREATE TABLE bronze.customer ('' @ [CHR 0x0A] @
     ''    customer_id BIGINT,'' @ [CHR 0x0A] @
     ''    first_name VARCHAR(30),'' @ [CHR 0x0A] @
     ''    last_name VARCHAR(30),'' @ [CHR 0x0A] @
     ''    account_balance BIGINT'' @ [CHR 0x0A] @
     '');''"
  by code_simp

text \<open>
  Claim C1. On the six-line copybook \<open>parse\<close> returns four Fields in declaration order,
  and \<open>generate_ddl\<close> lists their four columns, lower-cased with underscores. The first
  three are as the scenario says. The fourth, \<open>ACCOUNT-BALANCE\<close> with \<open>PIC S9(13)V99\<close>, is
  computed as \<open>BIGINT\<close> of length 13 and not as \<open>DECIMAL(15,2)\<close> of length 15: the
  decimal pattern asks for a parenthesised scale \<open>V9(S)\<close>, the clause has \<open>V99\<close>, and the
  integer pattern then finds \<open>9(13)\<close>.
\<close>

theorem parse_example_copybook:
  "parse self example_copybook = Inr (example_fields, example_parser)
   \<and> map name example_fields =
       [''CUSTOMER-ID'', ''FIRST-NAME'', ''LAST-NAME'', ''ACCOUNT-BALANCE'']
   \<and> sql_type (example_fields ! 3) = ''BIGINT''
   \<and> field_length (example_fields ! 3) = Some 13
   \<and> generate_ddl example_parser ''customer'' =
       ''CREATE TABLE bronze.customer ('' @ [CHR 0x0A] @
       ''    customer_id BIGINT,'' @ [CHR 0x0A] @
       ''    first_name VARCHAR(30),'' @ [CHR 0x0A] @
       ''    last_name VARCHAR(30),'' @ [CHR 0x0A] @
       ''    account_balance BIGINT'' @ [CHR 0x0A] @
       '');''"
  using parse_new_parser [of self example_copybook] parse_example_new ddl_example
  by (simp add: example_fields_def)

section \<open>The PIC interpreter\<close>

text \<open>
  Claim C2. For the clause \<open>9(5)V99\<close> the interpreter returns \<open>INTEGER\<close> and length 5:
  the clause contains \<open>V\<close>, the decimal pattern \<open>9\((\d+)\)V9\((\d+)\)\<close> does not match it
  (the scale is not parenthesised), and the integer pattern matches \<open>9(5)\<close>. With the scale
  written \<open>9(2)\<close> the decimal rule gives \<open>DECIMAL(7,2)\<close> and length 7.
\<close>

theorem parse_pic_9_5_V99:
  "parse_pic ''9(5)V99'' = Inr (''INTEGER'', 5)
   \<and> parse_pic ''9(5)V9(2)'' = Inr (''DECIMAL(7,2)'', 7)"
  by code_simp






















section \<open>The line classifier\<close>





















section \<open>The hierarchy resolver\<close>

lemma dropWhile_weaker:
  "(\<And>x. Q x \<Longrightarrow> P x) \<Longrightarrow> dropWhile P (dropWhile Q xs) = dropWhile P xs"
  by (induction xs) auto

lemma dropWhile_stronger:
  "(\<And>x. P x \<Longrightarrow> Q x) \<Longrightarrow> dropWhile P (dropWhile Q xs) = dropWhile Q xs"
  by (induction xs) auto

lemma open_below_twice: "open_below a (open_below b st) = open_below (min a b) st"
proof (cases "a \<le> b")
  case True
  then have "dropWhile (\<lambda>e. a \<le> fst e) (dropWhile (\<lambda>e. b \<le> fst e) (rev st)) =
             dropWhile (\<lambda>e. a \<le> fst e) (rev st)"
    by (intro dropWhile_weaker) simp
  with True show ?thesis by (simp add: open_below_def min_def)
next
  case False
  then have "dropWhile (\<lambda>e. a \<le> fst e) (dropWhile (\<lambda>e. b \<le> fst e) (rev st)) =
             dropWhile (\<lambda>e. b \<le> fst e) (rev st)"
    by (intro dropWhile_stronger) simp
  with False show ?thesis by (simp add: open_below_def min_def)
qed

lemma open_below_snoc:
  "open_below lv (st @ [(lg, g)]) = (if lv \<le> lg then open_below lv st else st @ [(lg, g)])"
  by (simp add: open_below_def)

lemma open_below_Nil [simp]: "open_below lv [] = []"
  by (simp add: open_below_def)

lemma nearest_open_stack:
  "parent_stack s0 = [] \<Longrightarrow>
   top_name (open_below lv (parent_stack (foldr (\<lambda>d s. resolve s d) seen s0))) =
     nearest_open seen lv"
proof (induction seen arbitrary: lv)
  case Nil
  then show ?case by (simp add: top_name_def)
next
  case (Cons d seen)
  let ?s = "foldr (\<lambda>d s. resolve s d) seen s0"
  show ?case
  proof (cases d)
    case Skip
    with Cons show ?thesis by simp
  next
    case (GroupDeclaration lg g)
    show ?thesis
    proof (cases "lg < lv")
      case True
      with GroupDeclaration show ?thesis by (simp add: open_below_snoc top_name_def)
    next
      case False
      then have "min lv lg = lv" by simp
      with False GroupDeclaration Cons.IH [OF Cons.prems, of lv] show ?thesis
        by (simp add: open_below_snoc open_below_twice)
    qed
  next
    case (FieldDeclaration lf nm p)
    with Cons.IH [OF Cons.prems, of "min lv lf"] show ?thesis
      by (simp add: open_below_twice)
  qed
qed

lemma field_parents_scan:
  "map parent (fields_attr (foldl resolve (foldl resolve new_parser (rev seen)) ds)) =
     map parent (fields_attr (foldl resolve new_parser (rev seen))) @ field_parents seen ds"
proof (induction ds arbitrary: seen)
  case Nil
  then show ?case by simp
next
  case (Cons d ds)
  let ?s = "foldl resolve new_parser (rev seen)"
  have step: "foldl resolve (resolve ?s d) ds =
              foldl resolve (foldl resolve new_parser (rev (d # seen))) ds" by simp
  have st: "top_name (open_below lv (parent_stack ?s)) = nearest_open seen lv" for lv
    using nearest_open_stack [of new_parser lv seen]
    by (simp add: foldl_conv_foldr new_parser_def)
  have here: "map parent (fields_attr (resolve ?s d)) =
              map parent (fields_attr ?s) @ field_parents seen [d]"
    by (cases d) (simp_all add: st)
  have "map parent (fields_attr (foldl resolve ?s (d # ds))) =
        map parent (fields_attr (foldl resolve new_parser (rev (d # seen)))) @
          field_parents (d # seen) ds"
    using Cons.IH [of "d # seen"] by simp
  also have "foldl resolve new_parser (rev (d # seen)) = resolve ?s d" by simp
  finally show ?case using here by (cases d) simp_all
qed

lemma parents_eq:
  "map parent (fields_attr (foldl resolve new_parser ds)) = field_parents [] ds"
  using field_parents_scan [of "[]" ds] by (simp add: new_parser_def)

lemma open_below_sorted:
  "sorted_wrt (<) (map fst st) \<Longrightarrow> open_below lv st = filter (\<lambda>e. fst e < lv) st"
proof (induction st rule: rev_induct)
  case Nil
  then show ?case by simp
next
  case (snoc x xs)
  from snoc.prems have srt: "sorted_wrt (<) (map fst xs)" and below: "\<forall>y\<in>set xs. fst y < fst x"
    by (auto simp: sorted_wrt_append)
  show ?case
  proof (cases "lv \<le> fst x")
    case True
    with snoc.IH [OF srt] show ?thesis
      by (cases x) (simp add: open_below_snoc)
  next
    case False
    with below have "\<forall>y\<in>set xs. fst y < lv" by auto
    then have "filter (\<lambda>e. fst e < lv) xs = xs" by (simp add: filter_id_conv)
    with False show ?thesis by (cases x) (simp add: open_below_snoc)
  qed
qed

lemma resolve_sorted:
  assumes "sorted_wrt (<) (map fst (parent_stack s))"
  shows "sorted_wrt (<) (map fst (parent_stack (resolve s d)))"
proof -
  have f: "sorted_wrt (<) (map fst (filter (\<lambda>e. fst e < lv) (parent_stack s)))" for lv
    using assms by (simp add: sorted_wrt_map sorted_wrt_filter)
  show ?thesis
  proof (cases d)
    case Skip
    with assms show ?thesis by simp
  next
    case (GroupDeclaration lv nm)
    with f [of lv] show ?thesis
      by (auto simp: open_below_sorted [OF assms] sorted_wrt_append)
  next
    case (FieldDeclaration lv nm p)
    with f [of lv] show ?thesis by (simp add: open_below_sorted [OF assms])
  qed
qed

lemma scan_sorted:
  "sorted_wrt (<) (map fst (parent_stack s)) \<Longrightarrow>
   sorted_wrt (<) (map fst (parent_stack (foldl resolve s ds)))"
  by (induction ds arbitrary: s) (simp_all add: resolve_sorted)

lemma nearest_open_group:
  "nearest_open seen lv = Some g \<Longrightarrow> \<exists>lg. GroupDeclaration lg g \<in> set seen \<and> lg < lv"
proof (induction seen lv rule: nearest_open.induct)
  case (1 lv)
  then show ?case by simp
next
  case (2 seen lv)
  then show ?case by auto
next
  case (3 lg nm seen lv)
  then show ?case by (auto split: if_splits)
next
  case (4 lf nm p seen lv)
  then obtain lg where "GroupDeclaration lg g \<in> set seen" "lg < min lv lf" by auto
  then show ?case by auto
qed


lemma field_parents_append:
  "field_parents seen (xs @ ys) = field_parents seen xs @ field_parents (rev xs @ seen) ys"
proof (induction xs arbitrary: seen)
  case Nil
  then show ?case by simp
next
  case (Cons d xs)
  then show ?case by (cases d) simp_all
qed

lemma length_field_parents:
  "length (field_parents seen xs) = length (filter is_field_declaration xs)"
proof (induction xs arbitrary: seen)
  case Nil
  then show ?case by simp
next
  case (Cons d xs)
  then show ?case by (cases d) simp_all
qed

lemma nearest_open_skips:
  "set skips \<subseteq> {Skip} \<Longrightarrow> nearest_open (skips @ seen) lv = nearest_open seen lv"
  by (induction skips) auto

lemma field_parents_skips:
  "set skips \<subseteq> {Skip} \<Longrightarrow> field_parents seen (skips @ ys) = field_parents (rev skips @ seen) ys"
proof -
  assume sk: "set skips \<subseteq> {Skip}"
  then have "filter is_field_declaration skips = []" by (auto simp: filter_empty_conv)
  then have "field_parents seen skips = []"
    using length_field_parents [of seen skips] by simp
  then show ?thesis by (simp add: field_parents_append)
qed

lemma field_parent_at:
  assumes "ds = pre @ FieldDeclaration lv nm p # post"
  shows "field_parents [] ds ! length (filter is_field_declaration pre) = nearest_open (rev pre) lv"
proof -
  have "field_parents [] ds =
        field_parents [] pre @ nearest_open (rev pre) lv #
          field_parents (FieldDeclaration lv nm p # rev pre) post"
    by (simp add: assms field_parents_append)
  then show ?thesis
    using length_field_parents [of "[]" pre] by (simp add: nth_append)
qed

lemma field_declaration_at:
  assumes "ds = pre @ FieldDeclaration lv nm p # post"
  shows "filter is_field_declaration ds ! length (filter is_field_declaration pre) =
           FieldDeclaration lv nm p
         \<and> length (filter is_field_declaration pre) < length (filter is_field_declaration ds)"
  by (simp add: assms nth_append)

lemma same_level_neighbours:
  assumes "ds = pre @ FieldDeclaration lv n1 p1 # skips @ FieldDeclaration lv n2 p2 # post"
    and "set skips \<subseteq> {Skip}"
  shows "field_parents [] ds ! length (filter is_field_declaration pre) =
         field_parents [] ds ! Suc (length (filter is_field_declaration pre))
         \<and> Suc (length (filter is_field_declaration pre)) <
             length (filter is_field_declaration ds)"
proof -
  let ?F1 = "FieldDeclaration lv n1 p1" and ?F2 = "FieldDeclaration lv n2 p2"
  have sk: "set (rev skips) \<subseteq> {Skip}" using assms(2) by simp
  have "field_parents (?F1 # rev pre) (skips @ ?F2 # post) =
        nearest_open (rev skips @ ?F1 # rev pre) lv #
          field_parents (?F2 # rev skips @ ?F1 # rev pre) post"
    by (simp add: field_parents_skips [OF assms(2)])
  also have "nearest_open (rev skips @ ?F1 # rev pre) lv = nearest_open (rev pre) lv"
    by (simp add: nearest_open_skips [OF sk])
  finally have "field_parents [] ds =
        field_parents [] pre @ nearest_open (rev pre) lv # nearest_open (rev pre) lv #
          field_parents (?F2 # rev skips @ ?F1 # rev pre) post"
    by (simp add: assms(1) field_parents_append)
  moreover have "filter is_field_declaration skips = []"
    using assms(2) by (auto simp: filter_empty_conv)
  ultimately show ?thesis
    using length_field_parents [of "[]" pre] by (simp add: nth_append assms(1))
qed

lemma parse_line_group:
  assumes "sorted_wrt (<) (map fst (parent_stack s))" and "classify line = GroupDeclaration lv nm"
  shows "parse_line s line =
           Inr (s\<lparr>parent_stack := filter (\<lambda>e. fst e < lv) (parent_stack s) @ [(lv, nm)]\<rparr>)"
  by (simp add: parse_line_classify assms(2) open_below_sorted [OF assms(1)])

lemma parse_line_field:
  assumes "sorted_wrt (<) (map fst (parent_stack s))" and "classify line = FieldDeclaration lv nm p"
  shows "\<exists>f. parse_line s line =
                Inr (s\<lparr>parent_stack := filter (\<lambda>e. fst e < lv) (parent_stack s),
                       fields_attr := fields_attr s @ [f]\<rparr>)
             \<and> level f = lv
             \<and> parent f = top_name (filter (\<lambda>e. fst e < lv) (parent_stack s))"
proof -
  let ?st = "filter (\<lambda>e. fst e < lv) (parent_stack s)"
  let ?f = "\<lparr>level = lv, name = nm, pic = Some p, sql_type = fst (pic_result p),
             field_length = Some (snd (pic_result p)), parent = top_name ?st\<rparr>"
  have "parse_line s line = Inr (s\<lparr>parent_stack := ?st, fields_attr := fields_attr s @ [?f]\<rparr>)"
    by (simp add: parse_line_classify assms(2) open_below_sorted [OF assms(1)])
  moreover have "level ?f = lv" "parent ?f = top_name ?st" by simp_all
  ultimately show ?thesis by blast
qed

text \<open>
  Claim C4, as the code has it. Every declaration, group or field, first pops the stack
  entries of its level or above, and the parent of a Field is the name on top of what is
  left. So the parent, when present, is the name of a group declared before the Field
  with a level strictly below the Field's level, and it is the nearest preceding group
  whose level is below the Field's level and below the level of every field declaration between
  the two (\<open>nearest_open\<close>): a group closed by a later field of its level or lower is no
  longer a parent, even if it is nearer. After every prefix of the input the stack is
  strictly increasing in level from bottom to top; on a declaration of level \<open>lv\<close> exactly the
  entries of level \<open>lv\<close> or above are removed before the parent is read; and two Fields of
  the same level with only skipped lines between them get the same parent.
\<close>

theorem parent_assignment:
  "(\<exists>fs self'. parse self content = Inr (fs, self')
      \<and> (map classify (py_split (CHR 0x0A) content) = pre @ FieldDeclaration lv nm p # post
           \<longrightarrow> length (filter is_field_declaration pre) < length fs
               \<and> declaration_of (fs ! length (filter is_field_declaration pre)) =
                   FieldDeclaration lv nm p
               \<and> parent (fs ! length (filter is_field_declaration pre)) =
                   nearest_open (rev pre) lv)
      \<and> (map classify (py_split (CHR 0x0A) content) =
             pre @ FieldDeclaration lv nm p # skips @ FieldDeclaration lv nmb pb # postb
           \<and> set skips \<subseteq> {Skip}
           \<longrightarrow> Suc (length (filter is_field_declaration pre)) < length fs
               \<and> parent (fs ! length (filter is_field_declaration pre)) =
                   parent (fs ! Suc (length (filter is_field_declaration pre)))))
   \<and> (nearest_open seen lv = Some g \<longrightarrow> (\<exists>lg. GroupDeclaration lg g \<in> set seen \<and> lg < lv))
   \<and> (\<exists>s. parse_lines new_parser (take n (py_split (CHR 0x0A) content)) = Inr s
          \<and> sorted_wrt (<) (map fst (parent_stack s)))
   \<and> (sorted_wrt (<) (map fst (parent_stack s))
        \<longrightarrow> (case classify line of
               Skip \<Rightarrow> parse_line s line = Inr s
             | GroupDeclaration lg ng \<Rightarrow>
                 parse_line s line =
                   Inr (s\<lparr>parent_stack :=
                            filter (\<lambda>e. fst e < lg) (parent_stack s) @ [(lg, ng)]\<rparr>)
             | FieldDeclaration lf nf pf \<Rightarrow>
                 (\<exists>f. parse_line s line =
                         Inr (s\<lparr>parent_stack := filter (\<lambda>e. fst e < lf) (parent_stack s),
                                fields_attr := fields_attr s @ [f]\<rparr>)
                      \<and> level f = lf
                      \<and> parent f = top_name (filter (\<lambda>e. fst e < lf) (parent_stack s)))))"
proof -
  let ?ds = "map classify (py_split (CHR 0x0A) content)"
  let ?fs = "fields_attr (foldl resolve new_parser ?ds)"
  let ?k = "length (filter is_field_declaration pre)"
  have decls: "map declaration_of ?fs = filter is_field_declaration ?ds"
    using foldl_resolve_fields [of new_parser ?ds] by (simp add: new_parser_def)
  have len: "length ?fs = length (filter is_field_declaration ?ds)"
    using arg_cong [OF decls, of length] by simp
  have pars: "map parent ?fs = field_parents [] ?ds" by (rule parents_eq)
  have one: "?k < length ?fs \<and> declaration_of (?fs ! ?k) = FieldDeclaration lv nm p
             \<and> parent (?fs ! ?k) = nearest_open (rev pre) lv"
    if h: "?ds = pre @ FieldDeclaration lv nm p # post"
  proof -
    from field_declaration_at [OF h] len have k: "?k < length ?fs" by simp
    have "declaration_of (?fs ! ?k) = map declaration_of ?fs ! ?k" using k by simp
    also have "\<dots> = FieldDeclaration lv nm p"
      using field_declaration_at [OF h] by (simp only: decls)
    finally have d: "declaration_of (?fs ! ?k) = FieldDeclaration lv nm p" .
    have "parent (?fs ! ?k) = map parent ?fs ! ?k" using k by simp
    also have "\<dots> = nearest_open (rev pre) lv"
      using field_parent_at [OF h] by (simp only: pars)
    finally show ?thesis using k d by simp
  qed
  have two: "Suc ?k < length ?fs \<and> parent (?fs ! ?k) = parent (?fs ! Suc ?k)"
    if h: "?ds = pre @ FieldDeclaration lv nm p # skips @ FieldDeclaration lv nmb pb # postb"
      and sk: "set skips \<subseteq> {Skip}"
  proof -
    from same_level_neighbours [OF h sk] len have k: "Suc ?k < length ?fs" by simp
    then have "parent (?fs ! ?k) = map parent ?fs ! ?k"
      and "parent (?fs ! Suc ?k) = map parent ?fs ! Suc ?k" by simp_all
    with same_level_neighbours [OF h sk] k show ?thesis by (simp only: pars)
  qed
  have c1: "?ds = pre @ FieldDeclaration lv nm p # post
           \<longrightarrow> ?k < length ?fs
               \<and> declaration_of (?fs ! ?k) = FieldDeclaration lv nm p
               \<and> parent (?fs ! ?k) = nearest_open (rev pre) lv"
    using one by (rule impI)
  have c2: "?ds = pre @ FieldDeclaration lv nm p # skips @ FieldDeclaration lv nmb pb # postb
           \<and> set skips \<subseteq> {Skip}
           \<longrightarrow> Suc ?k < length ?fs \<and> parent (?fs ! ?k) = parent (?fs ! Suc ?k)"
  proof
    assume "?ds = pre @ FieldDeclaration lv nm p # skips @ FieldDeclaration lv nmb pb # postb
           \<and> set skips \<subseteq> {Skip}"
    then show "Suc ?k < length ?fs \<and> parent (?fs ! ?k) = parent (?fs ! Suc ?k)"
      using two by (elim conjE)
  qed
  have first: "\<exists>fs self'. parse self content = Inr (fs, self')
      \<and> (?ds = pre @ FieldDeclaration lv nm p # post
           \<longrightarrow> length (filter is_field_declaration pre) < length fs
               \<and> declaration_of (fs ! ?k) = FieldDeclaration lv nm p
               \<and> parent (fs ! ?k) = nearest_open (rev pre) lv)
      \<and> (?ds = pre @ FieldDeclaration lv nm p # skips @ FieldDeclaration lv nmb pb # postb
           \<and> set skips \<subseteq> {Skip}
           \<longrightarrow> Suc ?k < length fs \<and> parent (fs ! ?k) = parent (fs ! Suc ?k))"
    apply (rule exI [of _ ?fs])
    apply (rule exI [of _ "foldl resolve new_parser ?ds"])
    apply (rule conjI [OF parse_eq conjI [OF c1 c2]])
    done
  have inv: "\<exists>s. parse_lines new_parser (take n (py_split (CHR 0x0A) content)) = Inr s
          \<and> sorted_wrt (<) (map fst (parent_stack s))"
    using scan_sorted [of new_parser "map classify (take n (py_split (CHR 0x0A) content))"]
    by (simp add: parse_lines_eq new_parser_def)
  have grp: "nearest_open seen lv = Some g
             \<longrightarrow> (\<exists>lg. GroupDeclaration lg g \<in> set seen \<and> lg < lv)"
    using nearest_open_group [of seen lv g] by (rule impI)
  have g: "sorted_wrt (<) (map fst (parent_stack s))
        \<longrightarrow> (case classify line of
               Skip \<Rightarrow> parse_line s line = Inr s
             | GroupDeclaration lg ng \<Rightarrow>
                 parse_line s line =
                   Inr (s\<lparr>parent_stack :=
                            filter (\<lambda>e. fst e < lg) (parent_stack s) @ [(lg, ng)]\<rparr>)
             | FieldDeclaration lf nf pf \<Rightarrow>
                 (\<exists>f. parse_line s line =
                         Inr (s\<lparr>parent_stack := filter (\<lambda>e. fst e < lf) (parent_stack s),
                                fields_attr := fields_attr s @ [f]\<rparr>)
                      \<and> level f = lf
                      \<and> parent f = top_name (filter (\<lambda>e. fst e < lf) (parent_stack s))))"
  proof
    assume srt: "sorted_wrt (<) (map fst (parent_stack s))"
    show "case classify line of
               Skip \<Rightarrow> parse_line s line = Inr s
             | GroupDeclaration lg ng \<Rightarrow>
                 parse_line s line =
                   Inr (s\<lparr>parent_stack :=
                            filter (\<lambda>e. fst e < lg) (parent_stack s) @ [(lg, ng)]\<rparr>)
             | FieldDeclaration lf nf pf \<Rightarrow>
                 (\<exists>f. parse_line s line =
                         Inr (s\<lparr>parent_stack := filter (\<lambda>e. fst e < lf) (parent_stack s),
                                fields_attr := fields_attr s @ [f]\<rparr>)
                      \<and> level f = lf
                      \<and> parent f = top_name (filter (\<lambda>e. fst e < lf) (parent_stack s)))"
    proof (cases "classify line")
      case Skip
      then show ?thesis by (simp add: parse_line_classify)
    next
      case (GroupDeclaration lg ng)
      with parse_line_group [OF srt this] show ?thesis by simp
    next
      case (FieldDeclaration lf nf pf)
      with parse_line_field [OF srt this] show ?thesis by simp
    qed
  qed
  show ?thesis
    by (rule conjI [OF first conjI [OF grp conjI [OF inv g]]])
qed


lemma classify_example:
  "map classify (py_split (CHR 0x0A) example_copybook) =
     [GroupDeclaration 1 ''CUSTOMER-RECORD'',
      FieldDeclaration 5 ''CUSTOMER-ID'' ''9(10)'',
      GroupDeclaration 5 ''CUSTOMER-NAME'',
      FieldDeclaration 10 ''FIRST-NAME'' ''X(30)'',
      FieldDeclaration 10 ''LAST-NAME'' ''X(30)'',
      FieldDeclaration 5 ''ACCOUNT-BALANCE'' ''S9(13)V99'']"
  by code_simp

lemma classify_new_field:
  "classify ''    05  EMAIL-ADDR   PIC X(50).'' = FieldDeclaration 5 ''EMAIL-ADDR'' ''X(50)''"
  by code_simp

theorem parent_assignment_witness:
  "parent (example_fields ! 1) =
     nearest_open [GroupDeclaration 5 ''CUSTOMER-NAME'',
                   FieldDeclaration 5 ''CUSTOMER-ID'' ''9(10)'',
                   GroupDeclaration 1 ''CUSTOMER-RECORD''] 10
   \<and> parent (example_fields ! 1) = parent (example_fields ! 2)
   \<and> (\<exists>lg. GroupDeclaration lg ''CUSTOMER-NAME''
             \<in> set [GroupDeclaration 5 ''CUSTOMER-NAME'',
                    FieldDeclaration 5 ''CUSTOMER-ID'' ''9(10)'',
                    GroupDeclaration 1 ''CUSTOMER-RECORD'']
           \<and> lg < 10)
   \<and> (\<exists>s. parse_lines new_parser (take 3 (py_split (CHR 0x0A) example_copybook)) = Inr s
          \<and> sorted_wrt (<) (map fst (parent_stack s)))
   \<and> (\<exists>f. parse_line example_parser ''    05  EMAIL-ADDR   PIC X(50).'' =
             Inr (example_parser\<lparr>parent_stack := [(1, ''CUSTOMER-RECORD'')],
                                 fields_attr := example_fields @ [f]\<rparr>)
          \<and> level f = 5 \<and> parent f = Some ''CUSTOMER-RECORD'')"
proof -
  let ?pre = "[GroupDeclaration 1 ''CUSTOMER-RECORD'',
               FieldDeclaration 5 ''CUSTOMER-ID'' ''9(10)'',
               GroupDeclaration 5 ''CUSTOMER-NAME'']"
  note t = parent_assignment [where self = new_parser and content = example_copybook
      and pre = ?pre and lv = 10 and nm = "''FIRST-NAME''" and p = "''X(30)''"
      and post = "[FieldDeclaration 10 ''LAST-NAME'' ''X(30)'',
                   FieldDeclaration 5 ''ACCOUNT-BALANCE'' ''S9(13)V99'']"
      and skips = "[]" and nmb = "''LAST-NAME''" and pb = "''X(30)''"
      and postb = "[FieldDeclaration 5 ''ACCOUNT-BALANCE'' ''S9(13)V99'']"
      and seen = "rev ?pre" and g = "''CUSTOMER-NAME''" and n = 3
      and s = example_parser and line = "''    05  EMAIL-ADDR   PIC X(50).''"]
  have srt: "sorted_wrt (<) (map fst (parent_stack example_parser))"
    by (simp add: example_parser_def)
  have near: "nearest_open (rev ?pre) 10 = Some ''CUSTOMER-NAME''" by simp
  from t obtain fs self' where pf: "parse new_parser example_copybook = Inr (fs, self')"
    and c1: "map classify (py_split (CHR 0x0A) example_copybook) =
               ?pre @ FieldDeclaration 10 ''FIRST-NAME'' ''X(30)'' #
                 [FieldDeclaration 10 ''LAST-NAME'' ''X(30)'',
                  FieldDeclaration 5 ''ACCOUNT-BALANCE'' ''S9(13)V99'']
             \<longrightarrow> parent (fs ! length (filter is_field_declaration ?pre)) =
                   nearest_open (rev ?pre) 10"
    and c2: "map classify (py_split (CHR 0x0A) example_copybook) =
               ?pre @ FieldDeclaration 10 ''FIRST-NAME'' ''X(30)'' # [] @
                 FieldDeclaration 10 ''LAST-NAME'' ''X(30)'' #
                 [FieldDeclaration 5 ''ACCOUNT-BALANCE'' ''S9(13)V99'']
               \<and> set [] \<subseteq> {Skip}
             \<longrightarrow> parent (fs ! length (filter is_field_declaration ?pre)) =
                   parent (fs ! Suc (length (filter is_field_declaration ?pre)))"
    by blast
  from pf have fs: "fs = example_fields" by (simp add: parse_example_new)
  from c1 have a: "parent (example_fields ! Suc 0) = nearest_open (rev ?pre) 10"
    by (simp add: classify_example fs)
  from c2 have b: "parent (example_fields ! Suc 0) = parent (example_fields ! Suc (Suc 0))"
    by (simp add: classify_example fs)
  from t near have c: "\<exists>lg. GroupDeclaration lg ''CUSTOMER-NAME'' \<in> set (rev ?pre) \<and> lg < 10"
    by blast
  from t have d: "\<exists>s. parse_lines new_parser (take 3 (py_split (CHR 0x0A) example_copybook)) = Inr s
          \<and> sorted_wrt (<) (map fst (parent_stack s))" by blast
  from t srt have "case classify ''    05  EMAIL-ADDR   PIC X(50).'' of
               Skip \<Rightarrow> parse_line example_parser ''    05  EMAIL-ADDR   PIC X(50).'' = Inr example_parser
             | GroupDeclaration lg ng \<Rightarrow>
                 parse_line example_parser ''    05  EMAIL-ADDR   PIC X(50).'' =
                   Inr (example_parser\<lparr>parent_stack :=
                            filter (\<lambda>e. fst e < lg) (parent_stack example_parser) @ [(lg, ng)]\<rparr>)
             | FieldDeclaration lf nf pf \<Rightarrow>
                 (\<exists>f. parse_line example_parser ''    05  EMAIL-ADDR   PIC X(50).'' =
                         Inr (example_parser\<lparr>parent_stack := filter (\<lambda>e. fst e < lf) (parent_stack example_parser),
                                fields_attr := fields_attr example_parser @ [f]\<rparr>)
                      \<and> level f = lf
                      \<and> parent f = top_name (filter (\<lambda>e. fst e < lf) (parent_stack example_parser)))"
    by blast
  then have e: "\<exists>f. parse_line example_parser ''    05  EMAIL-ADDR   PIC X(50).'' =
             Inr (example_parser\<lparr>parent_stack := [(1, ''CUSTOMER-RECORD'')],
                                 fields_attr := example_fields @ [f]\<rparr>)
          \<and> level f = 5 \<and> parent f = Some ''CUSTOMER-RECORD''"
    by (simp add: classify_new_field example_parser_def top_name_def)
  from a b c d e show ?thesis by (simp add: numeral_2_eq_2)
qed

lemma parse_skipped_field:
  "parse new_parser skipped_field_copybook =
     Inr ([\<lparr>level = 3, name = ''F1'', pic = Some ''X(1)'', sql_type = ''VARCHAR(1)'',
             field_length = Some 1, parent = Some ''G0''\<rparr>,
           \<lparr>level = 10, name = ''F2'', pic = Some ''X(1)'', sql_type = ''VARCHAR(1)'',
             field_length = Some 1, parent = Some ''G0''\<rparr>],
          \<lparr>fields_attr =
             [\<lparr>level = 3, name = ''F1'', pic = Some ''X(1)'', sql_type = ''VARCHAR(1)'',
               field_length = Some 1, parent = Some ''G0''\<rparr>,
              \<lparr>level = 10, name = ''F2'', pic = Some ''X(1)'', sql_type = ''VARCHAR(1)'',
               field_length = Some 1, parent = Some ''G0''\<rparr>],
           parent_stack = [(1, ''G0'')]\<rparr>)"
  by code_simp

lemma classify_skipped_field:
  "map classify (py_split (CHR 0x0A) skipped_field_copybook) =
     [GroupDeclaration 1 ''G0'', GroupDeclaration 5 ''G1'',
      FieldDeclaration 3 ''F1'' ''X(1)'', FieldDeclaration 10 ''F2'' ''X(1)'']"
  by code_simp

text \<open>
  The claim as stated fails: in the copybook \<open>01 G0. / 05 G1. / 03 F1 PIC X(1). /
  10 F2 PIC X(1).\<close> the nearest group declaration before \<open>F2\<close> with a level below 10 is
  \<open>G1\<close> (level 5), and the parent of \<open>F2\<close> is \<open>G0\<close>: the field \<open>F1\<close> of level 3 has
  popped \<open>G1\<close>.
\<close>

theorem parent_is_not_nearest_lower_group:
  "map classify (py_split (CHR 0x0A) skipped_field_copybook) =
     [GroupDeclaration 1 ''G0'', GroupDeclaration 5 ''G1'',
      FieldDeclaration 3 ''F1'' ''X(1)'', FieldDeclaration 10 ''F2'' ''X(1)'']
   \<and> nearest_lower_group
       [FieldDeclaration 3 ''F1'' ''X(1)'', GroupDeclaration 5 ''G1'', GroupDeclaration 1 ''G0'']
       10 = Some ''G1''
   \<and> map_sum id (\<lambda>r. map (\<lambda>f. (name f, parent f)) (fst r))
        (parse new_parser skipped_field_copybook) =
       Inr [(''F1'', Some ''G0''), (''F2'', Some ''G0'')]"
  using classify_skipped_field parse_skipped_field by simp

end
